theory Spec2Isabelle
  imports Complex_Main "HOL-Library.Product_Lexorder" "HOL-Library.Sublist"
begin

section \<open>Data model of \<open>assign_events.py\<close>\<close>

text \<open>
  Python objects are mutable and shared: an event's \<open>assignments\<close> list holds references to
  participant objects and a participant's \<open>assignments\<close> list holds references to event
  objects. The store is the pair of the two input lists, and a reference is the position of
  the object in its input list (the lists hold pairwise distinct objects, as
  \<open>read_participants\<close> and \<open>read_events\<close> build them). Membership is membership of the
  reference.

  \<open>datetime.date\<close> is \<open>Date year month day\<close>; a \<open>float\<close> distance is a real number (the
  distances are only compared, never computed with, and the order of finite floats is the
  order of the reals; a NaN, which no order places, is not a distance); Python's unbounded
  \<open>int\<close> is \<open>int\<close>.
\<close>

datatype date = Date int int int

record Participant =
  name :: string
  preferred_school :: "bool option"
  preferred_days :: "string set"
  distance :: "real option"
  country :: "string option"
  gender :: "string option"
  assignments :: "nat list"

record Event =
  name :: string
  date :: date
  location :: string
  capacity :: int
  school_event :: "bool option"
  assignments :: "nat list"

type_synonym store = "Participant list \<times> Event list"

text \<open>A \<open>defaultdict(int)\<close> keyed by the optional strings the code indexes it with.\<close>

type_synonym counts = "string option \<rightharpoonup> int"

type_synonym key = "int \<times> int \<times> real \<times> int \<times> int"

type_synonym loop_state = "counts \<times> counts \<times> store"

section \<open>Library functions the source calls\<close>

text \<open>\<open>date.toordinal()\<close>: the proleptic Gregorian ordinal, 0001-01-01 being day 1.\<close>

definition is_leap :: "int \<Rightarrow> bool" where
  "is_leap y \<longleftrightarrow> y mod 4 = 0 \<and> (y mod 100 \<noteq> 0 \<or> y mod 400 = 0)"

definition days_before_year :: "int \<Rightarrow> int" where
  "days_before_year y = (y - 1) * 365 + (y - 1) div 4 - (y - 1) div 100 + (y - 1) div 400"

definition days_before_month :: "int \<Rightarrow> int \<Rightarrow> int" where
  "days_before_month y m =
     [-1, 0, 31, 59, 90, 120, 151, 181, 212, 243, 273, 304, 334] ! nat m
       + (if m > 2 \<and> is_leap y then 1 else 0)"

fun toordinal :: "date \<Rightarrow> int" where
  "toordinal (Date y m d) = days_before_year y + days_before_month y m + d"

text \<open>\<open>date.weekday()\<close>: Monday is 0.\<close>

definition weekday :: "date \<Rightarrow> nat" where
  "weekday d = nat ((toordinal d + 6) mod 7)"

text \<open>\<open>date.strftime("%A")\<close> in the C locale.\<close>

definition strftime_A :: "date \<Rightarrow> string" where
  "strftime_A d =
     [''Monday'', ''Tuesday'', ''Wednesday'', ''Thursday'', ''Friday'', ''Saturday'', ''Sunday'']
       ! weekday d"

text \<open>
  \<open>str.lower()\<close> and \<open>str.upper()\<close> are Unicode case mappings. On a string of ASCII
  characters they change the letters A to Z and a to z only, which is what \<open>ascii_lower\<close> and
  \<open>ascii_upper\<close> do; the model applies them to ASCII strings only (the engine lowers the
  weekday names of \<open>strftime\<close>). Where the source lowers or uppers a string it was given,
  in \<open>filter_participants\<close>, the two mappings are parameters of the model.
\<close>

definition ascii_lower_char :: "char \<Rightarrow> char" where
  "ascii_lower_char c =
     (case map_of (zip ''ABCDEFGHIJKLMNOPQRSTUVWXYZ'' ''abcdefghijklmnopqrstuvwxyz'') c of
        None \<Rightarrow> c | Some l \<Rightarrow> l)"

definition ascii_upper_char :: "char \<Rightarrow> char" where
  "ascii_upper_char c =
     (case map_of (zip ''abcdefghijklmnopqrstuvwxyz'' ''ABCDEFGHIJKLMNOPQRSTUVWXYZ'') c of
        None \<Rightarrow> c | Some u \<Rightarrow> u)"

definition ascii_lower :: "string \<Rightarrow> string" where
  "ascii_lower s = map ascii_lower_char s"

definition ascii_upper :: "string \<Rightarrow> string" where
  "ascii_upper s = map ascii_upper_char s"

text \<open>Truth value of an \<open>Optional[str]\<close>: \<open>None\<close> and the empty string are false.\<close>

definition truthy :: "string option \<Rightarrow> bool" where
  "truthy v = (case v of None \<Rightarrow> False | Some s \<Rightarrow> s \<noteq> [])"

text \<open>\<open>v or ""\<close> for an \<open>Optional[str]\<close>.\<close>

definition or_empty :: "string option \<Rightarrow> string" where
  "or_empty v = (case v of None \<Rightarrow> [] | Some s \<Rightarrow> s)"

text \<open>\<open>counts.get(k, 0)\<close> and \<open>counts[k] += 1\<close> on a \<open>defaultdict(int)\<close>.\<close>

definition get0 :: "counts \<Rightarrow> string option \<Rightarrow> int" where
  "get0 m k = (case m k of None \<Rightarrow> 0 | Some n \<Rightarrow> n)"

definition incr :: "counts \<Rightarrow> string option \<Rightarrow> counts" where
  "incr m k = m(k \<mapsto> get0 m k + 1)"

section \<open>The assignment engine\<close>

definition days_between :: "date \<Rightarrow> date \<Rightarrow> int" where
  "days_between d1 d2 = \<bar>toordinal d1 - toordinal d2\<bar>"

definition gender_diff :: "counts \<Rightarrow> string option \<Rightarrow> int" where
  "gender_diff gender_counts gender' =
     (let counts = (if truthy gender' then incr gender_counts gender' else gender_counts)
      in \<bar>get0 counts (Some ''M'') - get0 counts (Some ''F'')\<bar>)"

definition candidate_key :: "Participant \<Rightarrow> Event \<Rightarrow> counts \<Rightarrow> counts \<Rightarrow> key" where
  "candidate_key participant event country_counts gender_counts =
     (let school_score =
            (if preferred_school participant \<noteq> None \<and> school_event event \<noteq> None
                \<and> preferred_school participant \<noteq> school_event event
             then 1 else 0);
          day = ascii_lower (strftime_A (date event));
          day_score =
            (if preferred_days participant \<noteq> {} \<and> day \<notin> preferred_days participant
             then 1 else 0);
          distance_score = (case distance participant of Some d \<Rightarrow> d | None \<Rightarrow> 0);
          country_score = get0 country_counts (country participant);
          gender_score = gender_diff gender_counts (gender participant)
      in (school_score, day_score, distance_score, country_score, gender_score))"

text \<open>
  The condition of the list comprehension: fewer than two assignments, and every event
  already assigned at least 30 days away from this one.
\<close>

definition eligible :: "Event list \<Rightarrow> Event \<Rightarrow> Participant \<Rightarrow> bool" where
  "eligible events event p \<longleftrightarrow>
     length (Participant.assignments p) < 2
     \<and> list_all (\<lambda>e. days_between (date event) (date (events ! e)) \<ge> 30)
         (Participant.assignments p)"

definition candidates_of :: "Participant list \<Rightarrow> Event list \<Rightarrow> Event \<Rightarrow> nat list" where
  "candidates_of participants events event =
     filter (\<lambda>p. eligible events event (participants ! p)) [0..<length participants]"

text \<open>
  One pass through the body of the inner loop for the event at position \<open>i\<close>: \<open>None\<close> is the
  \<open>break\<close>. \<open>list.sort(key=...)\<close> is a stable sort, as \<open>sort_key\<close> is, and tuples compare
  lexicographically, which is the order of products in \<open>Product_Lexorder\<close>. The candidates
  are the positions of the eligible participants, in input order.
\<close>

definition slot_step :: "nat \<Rightarrow> loop_state \<Rightarrow> loop_state option" where
  "slot_step i st =
     (case st of (country_counts, gender_counts, participants, events) \<Rightarrow>
        let event = events ! i;
            candidates = candidates_of participants events event
        in if candidates = [] then None
           else
             let sorted_candidates =
                   sort_key (\<lambda>p. candidate_key (participants ! p) event
                                    country_counts gender_counts) candidates;
                 chosen = hd sorted_candidates;
                 events1 = events[i := event\<lparr>assignments := assignments event @ [chosen]\<rparr>];
                 participants1 = participants[chosen := (participants ! chosen)
                   \<lparr>Participant.assignments :=
                      Participant.assignments (participants ! chosen) @ [i]\<rparr>];
                 country_counts1 =
                   (if truthy (country (participants ! chosen))
                    then incr country_counts (country (participants ! chosen))
                    else country_counts);
                 gender_counts1 =
                   (if truthy (gender (participants ! chosen))
                    then incr gender_counts (gender (participants ! chosen))
                    else gender_counts)
             in Some (country_counts1, gender_counts1, participants1, events1))"

text \<open>\<open>for _ in range(event.capacity)\<close>, with the number of passes left as first argument.\<close>

fun fill_slots :: "nat \<Rightarrow> nat \<Rightarrow> loop_state \<Rightarrow> loop_state" where
  "fill_slots 0 i st = st"
| "fill_slots (Suc n) i st =
     (case slot_step i st of None \<Rightarrow> st | Some st' \<Rightarrow> fill_slots n i st')"

text \<open>The body of the outer loop: fresh counters, then the slots of the event.\<close>

definition fill_event :: "nat \<Rightarrow> store \<Rightarrow> store" where
  "fill_event i s =
     snd (snd (fill_slots (nat (capacity (snd s ! i))) i (Map.empty, Map.empty, s)))"

fun assign_loop :: "nat list \<Rightarrow> store \<Rightarrow> store" where
  "assign_loop [] s = s"
| "assign_loop (i # rest) s = assign_loop rest (fill_event i s)"

definition assign_events :: "Participant list \<Rightarrow> Event list \<Rightarrow> store" where
  "assign_events participants events = assign_loop [0..<length events] (participants, events)"

section \<open>The engine over any stable sort\<close>










section \<open>The participant filter\<close>

text \<open>
  The loop body of \<open>filter_participants\<close>: true when the participant is appended. \<open>lower\<close>
  and \<open>upper\<close> stand for \<open>str.lower\<close> and \<open>str.upper\<close>.
\<close>

definition retained ::
  "(string \<Rightarrow> string) \<Rightarrow> (string \<Rightarrow> string) \<Rightarrow> string option \<Rightarrow> string option
     \<Rightarrow> string option \<Rightarrow> bool option \<Rightarrow> real option \<Rightarrow> Participant \<Rightarrow> bool" where
  "retained lower upper gender' country' day school max_distance p =
     (if truthy gender' \<and> upper (or_empty (gender p)) \<noteq> upper (the gender') then False
      else if truthy country' \<and> lower (or_empty (country p)) \<noteq> lower (the country') then False
      else if truthy day \<and> preferred_days p \<noteq> {} \<and> the day \<notin> preferred_days p then False
      else if school \<noteq> None \<and> preferred_school p \<noteq> None \<and> preferred_school p \<noteq> school
        then False
      else if max_distance \<noteq> None \<and> distance p \<noteq> None
              \<and> the (distance p) > the max_distance then False
      else True)"

definition filter_participants ::
  "(string \<Rightarrow> string) \<Rightarrow> (string \<Rightarrow> string) \<Rightarrow> Participant list \<Rightarrow> string option
     \<Rightarrow> string option \<Rightarrow> string option \<Rightarrow> bool option \<Rightarrow> real option \<Rightarrow> Participant list" where
  "filter_participants lower upper participants gender' country' day school max_distance =
     (let day1 = (if truthy day then Some (lower (the day)) else None)
      in foldl (\<lambda>result p.
                  if retained lower upper gender' country' day1 school max_distance p
                  then result @ [p] else result)
           [] participants)"

section \<open>Observing the run\<close>

text \<open>
  \<open>slot_iter j i st\<close> is the state after \<open>j\<close> passes of the slot loop of event \<open>i\<close> started in
  \<open>st\<close>, \<open>None\<close> when the loop has ended before; \<open>event_start\<close> is the store when the event
  loop reaches event \<open>i\<close>; \<open>state_at\<close> is the state of the run before slot \<open>j\<close> of event \<open>i\<close>.
\<close>

fun slot_iter :: "nat \<Rightarrow> nat \<Rightarrow> loop_state \<Rightarrow> loop_state option" where
  "slot_iter 0 i st = Some st"
| "slot_iter (Suc j) i st =
     (case slot_step i st of None \<Rightarrow> None | Some st' \<Rightarrow> slot_iter j i st')"

definition event_start :: "Participant list \<Rightarrow> Event list \<Rightarrow> nat \<Rightarrow> store" where
  "event_start ps es i = assign_loop [0..<i] (ps, es)"

definition state_at :: "Participant list \<Rightarrow> Event list \<Rightarrow> nat \<Rightarrow> nat \<Rightarrow> loop_state option" where
  "state_at ps es i j =
     (if i < length es \<and> j \<le> nat (capacity (es ! i))
      then slot_iter j i (Map.empty, Map.empty, event_start ps es i) else None)"

section \<open>Properties of a store\<close>

definition fresh :: "Participant list \<Rightarrow> Event list \<Rightarrow> bool" where
  "fresh ps es \<longleftrightarrow>
     list_all (\<lambda>p. Participant.assignments p = []) ps \<and> list_all (\<lambda>e. assignments e = []) es"

definition refs_ok :: "store \<Rightarrow> bool" where
  "refs_ok s \<longleftrightarrow>
     (\<forall>p<length (fst s). \<forall>e\<in>set (Participant.assignments (fst s ! p)). e < length (snd s))
     \<and> (\<forall>e<length (snd s). \<forall>p\<in>set (assignments (snd s ! e)). p < length (fst s))"

definition symmetric :: "store \<Rightarrow> bool" where
  "symmetric s \<longleftrightarrow>
     (\<forall>p<length (fst s). \<forall>e<length (snd s).
        p \<in> set (assignments (snd s ! e)) \<longleftrightarrow> e \<in> set (Participant.assignments (fst s ! p)))"

definition capped :: "store \<Rightarrow> bool" where
  "capped s \<longleftrightarrow> (\<forall>p<length (fst s). length (Participant.assignments (fst s ! p)) \<le> 2)"

definition spaced_list :: "Event list \<Rightarrow> nat list \<Rightarrow> bool" where
  "spaced_list es xs \<longleftrightarrow>
     (\<forall>a<length xs. \<forall>b<length xs. a \<noteq> b \<longrightarrow>
        days_between (date (es ! (xs ! a))) (date (es ! (xs ! b))) \<ge> 30)"

definition spaced :: "store \<Rightarrow> bool" where
  "spaced s \<longleftrightarrow> (\<forall>p<length (fst s). spaced_list (snd s) (Participant.assignments (fst s ! p)))"

definition no_dups :: "store \<Rightarrow> bool" where
  "no_dups s \<longleftrightarrow> (\<forall>e<length (snd s). distinct (assignments (snd s ! e)))"

definition inv :: "store \<Rightarrow> bool" where
  "inv s \<longleftrightarrow> refs_ok s \<and> symmetric s \<and> capped s \<and> spaced s \<and> no_dups s"


text \<open>The properties of the store that one pass for event \<open>i\<close> keeps.\<close>

definition kept :: "nat \<Rightarrow> store \<Rightarrow> store \<Rightarrow> bool" where
  "kept i s s' \<longleftrightarrow>
     length (fst s') = length (fst s) \<and> length (snd s') = length (snd s)
     \<and> (\<forall>e. date (snd s' ! e) = date (snd s ! e) \<and> capacity (snd s' ! e) = capacity (snd s ! e))
     \<and> (\<forall>e. e \<noteq> i \<longrightarrow> snd s' ! e = snd s ! e)"

definition counts_wf :: "counts \<Rightarrow> bool" where
  "counts_wf m \<longleftrightarrow> (\<forall>k. \<not> truthy k \<longrightarrow> m k = None)"

text \<open>
  The number of participants among \<open>committed\<close> whose attribute is \<open>k\<close>, and the state in
  which both counters hold these numbers for the event's list.
\<close>

definition tally ::
  "(Participant \<Rightarrow> string option) \<Rightarrow> Participant list \<Rightarrow> nat list \<Rightarrow> string option \<Rightarrow> int" where
  "tally field ps committed k = int (length (filter (\<lambda>p. field (ps ! p) = k) committed))"

definition tallied :: "nat \<Rightarrow> loop_state \<Rightarrow> bool" where
  "tallied i st \<longleftrightarrow>
     (case st of (cc, gc, ps, es) \<Rightarrow>
        \<forall>k. truthy k \<longrightarrow>
          get0 cc k = tally country ps (assignments (es ! i)) k
          \<and> get0 gc k = tally gender ps (assignments (es ! i)) k)"

section \<open>The ranking key and its order in the words of the specification\<close>

definition spec_school_mismatch :: "bool option \<Rightarrow> bool option \<Rightarrow> int" where
  "spec_school_mismatch pref ev =
     (case pref of None \<Rightarrow> 0
      | Some a \<Rightarrow> (case ev of None \<Rightarrow> 0 | Some b \<Rightarrow> if a = b then 0 else 1))"

definition spec_weekday_name :: "date \<Rightarrow> string" where
  "spec_weekday_name d =
     [''monday'', ''tuesday'', ''wednesday'', ''thursday'', ''friday'', ''saturday'', ''sunday'']
       ! weekday d"

definition spec_day_mismatch :: "string set \<Rightarrow> date \<Rightarrow> int" where
  "spec_day_mismatch days d = (if days \<noteq> {} \<and> spec_weekday_name d \<notin> days then 1 else 0)"

definition spec_distance_score :: "real option \<Rightarrow> real" where
  "spec_distance_score v = (case v of None \<Rightarrow> 0 | Some x \<Rightarrow> x)"

definition spec_country_score :: "counts \<Rightarrow> string option \<Rightarrow> int" where
  "spec_country_score country_counts c =
     (case c of None \<Rightarrow> 0
      | Some x \<Rightarrow> (case country_counts (Some x) of None \<Rightarrow> 0 | Some n \<Rightarrow> n))"

definition spec_gender_score :: "counts \<Rightarrow> string option \<Rightarrow> int" where
  "spec_gender_score gender_counts g =
     \<bar>(get0 gender_counts (Some ''M'') + (if g = Some ''M'' then 1 else 0))
        - (get0 gender_counts (Some ''F'') + (if g = Some ''F'' then 1 else 0))\<bar>"

definition spec_key :: "Participant \<Rightarrow> Event \<Rightarrow> counts \<Rightarrow> counts \<Rightarrow> key" where
  "spec_key p e country_counts gender_counts =
     (spec_school_mismatch (preferred_school p) (school_event e),
      spec_day_mismatch (preferred_days p) (date e),
      spec_distance_score (distance p),
      spec_country_score country_counts (country p),
      spec_gender_score gender_counts (gender p))"

fun key_less :: "key \<Rightarrow> key \<Rightarrow> bool" where
  "key_less (a1, b1, c1, d1, e1) (a2, b2, c2, d2, e2) \<longleftrightarrow>
     a1 < a2 \<or> (a1 = a2 \<and> (b1 < b2 \<or> (b1 = b2 \<and> (c1 < c2 \<or> (c1 = c2 \<and>
       (d1 < d2 \<or> (d1 = d2 \<and> e1 < e2)))))))"

section \<open>A sample run\<close>

definition with_assignments :: "Participant list \<Rightarrow> nat list list \<Rightarrow> Participant list" where
  "with_assignments ps as = map (\<lambda>(p, a). p\<lparr>Participant.assignments := a\<rparr>) (zip ps as)"

definition with_participants :: "Event list \<Rightarrow> nat list list \<Rightarrow> Event list" where
  "with_participants es as = map (\<lambda>(e, a). e\<lparr>assignments := a\<rparr>) (zip es as)"

definition demo_participants :: "Participant list" where
  "demo_participants =
     [\<lparr>Participant.name = ''Ana'', preferred_school = None, preferred_days = {''tuesday''},
        distance = Some 5, country = Some ''US'', gender = Some ''F'',
        Participant.assignments = []\<rparr>,
      \<lparr>Participant.name = ''Ben'', preferred_school = None, preferred_days = {},
        distance = Some 5, country = Some ''US'', gender = Some ''M'',
        Participant.assignments = []\<rparr>]"

definition demo_events :: "Event list" where
  "demo_events =
     [\<lparr>name = ''Opening'', date = Date 2024 1 15, location = ''Hall'', capacity = 1,
        school_event = None, assignments = []\<rparr>,
      \<lparr>name = ''Closing'', date = Date 2024 2 19, location = ''Hall'', capacity = 3,
        school_event = Some True, assignments = []\<rparr>]"

definition demo_store :: "nat list list \<Rightarrow> nat list list \<Rightarrow> store" where
  "demo_store pa ea = (with_assignments demo_participants pa, with_participants demo_events ea)"

section \<open>Basic facts\<close>

lemma days_between_self: "days_between d d = 0"
  by (simp add: days_between_def)

lemma days_between_sym: "days_between a b = days_between b a"
  by (simp add: days_between_def abs_minus_commute)

lemma hd_sort_key_in: "xs \<noteq> [] \<Longrightarrow> hd (sort_key f xs) \<in> set xs"
proof -
  assume "xs \<noteq> []"
  then have "sort_key f xs \<noteq> []" by (metis length_0_conv length_sort)
  then show ?thesis by (metis hd_in_set set_sort)
qed

lemma hd_sort_key_min:
  assumes "x \<in> set xs"
  shows "f (hd (sort_key f xs)) \<le> f x"
proof -
  have ne: "sort_key f xs \<noteq> []" using assms by (metis empty_iff list.set(1) set_sort)
  have s: "sorted (map f (sort_key f xs))" by (rule sorted_sort_key)
  obtain y ys where ys: "sort_key f xs = y # ys" using ne by (cases "sort_key f xs") auto
  have "x \<in> set (y # ys)" using assms ys by (metis set_sort)
  then show ?thesis using s ys by auto
qed

lemma hd_sort_key_stable:
  assumes "xs \<noteq> []"
  shows "hd (sort_key f xs) = hd (filter (\<lambda>y. f y = f (hd (sort_key f xs))) xs)"
proof -
  obtain y ys where ys: "sort_key f xs = y # ys"
    using assms by (cases "sort_key f xs") (auto dest: arg_cong[where f=length])
  have "filter (\<lambda>z. f z = f y) (sort_key f xs) = filter (\<lambda>z. f z = f y) xs"
    by (rule sort_key_stable)
  then have "y # filter (\<lambda>z. f z = f y) ys = filter (\<lambda>z. f z = f y) xs"
    using ys by simp
  then have "hd (filter (\<lambda>z. f z = f y) xs) = y" by (metis list.sel(1))
  then show ?thesis using ys by simp
qed

lemma hd_filter_sorted_le:
  fixes xs :: "nat list"
  assumes "sorted xs" "x \<in> set xs" "P x"
  shows "hd (filter P xs) \<le> x"
proof -
  have s: "sorted (filter P xs)" using assms(1) by (rule sorted_wrt_filter)
  have m: "x \<in> set (filter P xs)" using assms by simp
  then obtain y ys where ys: "filter P xs = y # ys" by (cases "filter P xs") auto
  then show ?thesis using s m by auto
qed

lemma sorted_candidates: "sorted (candidates_of ps es e)"
  by (simp add: candidates_of_def sorted_wrt_filter)

lemma distinct_candidates: "distinct (candidates_of ps es e)"
  by (simp add: candidates_of_def)

lemma candidates_iff:
  "c \<in> set (candidates_of ps es e) \<longleftrightarrow> c < length ps \<and> eligible es e (ps ! c)"
  by (auto simp: candidates_of_def)

lemma slot_step_None:
  "slot_step i (cc, gc, ps, es) = None \<longleftrightarrow> candidates_of ps es (es ! i) = []"
  by (simp add: slot_step_def Let_def)

lemma slot_step_SomeD:
  assumes "slot_step i (cc, gc, ps, es) = Some (cc', gc', ps', es')"
  defines "c \<equiv> hd (sort_key (\<lambda>p. candidate_key (ps ! p) (es ! i) cc gc)
                      (candidates_of ps es (es ! i)))"
  shows "candidates_of ps es (es ! i) \<noteq> []"
    and "ps' = ps[c := (ps ! c)\<lparr>Participant.assignments := Participant.assignments (ps ! c) @ [i]\<rparr>]"
    and "es' = es[i := (es ! i)\<lparr>assignments := assignments (es ! i) @ [c]\<rparr>]"
    and "cc' = (if truthy (country (ps ! c)) then incr cc (country (ps ! c)) else cc)"
    and "gc' = (if truthy (gender (ps ! c)) then incr gc (gender (ps ! c)) else gc)"
  using assms by (auto simp: slot_step_def Let_def split: if_splits)

lemma nth_update_gen: "(xs[i := x]) ! j = (if i = j \<and> i < length xs then x else xs ! j)"
  by (cases "i < length xs") (auto simp: nth_list_update list_update_beyond)

lemma commit_refs_ok:
  assumes "refs_ok (ps, es)" "c < length ps" "i < length es"
  shows "refs_ok (ps[c := (ps ! c)\<lparr>Participant.assignments := Participant.assignments (ps ! c) @ [i]\<rparr>],
                  es[i := (es ! i)\<lparr>assignments := assignments (es ! i) @ [c]\<rparr>])"
  using assms unfolding refs_ok_def by (auto simp: nth_list_update)

lemma commit_symmetric:
  assumes "symmetric (ps, es)" "c < length ps" "i < length es"
  shows "symmetric (ps[c := (ps ! c)\<lparr>Participant.assignments := Participant.assignments (ps ! c) @ [i]\<rparr>],
                    es[i := (es ! i)\<lparr>assignments := assignments (es ! i) @ [c]\<rparr>])"
  using assms unfolding symmetric_def by (auto simp: nth_list_update)

lemma commit_capped:
  assumes "capped (ps, es)" "length (Participant.assignments (ps ! c)) < 2"
  shows "capped (ps[c := (ps ! c)\<lparr>Participant.assignments := Participant.assignments (ps ! c) @ [i]\<rparr>],
                 es[i := (es ! i)\<lparr>assignments := assignments (es ! i) @ [c]\<rparr>])"
  using assms unfolding capped_def by (auto simp: nth_update_gen)

lemma date_commit [simp]:
  "date (es[i := (es ! i)\<lparr>assignments := xs\<rparr>] ! e) = date (es ! e)"
  by (simp add: nth_update_gen)

lemma capacity_commit [simp]:
  "capacity (es[i := (es ! i)\<lparr>assignments := xs\<rparr>] ! e) = capacity (es ! e)"
  by (simp add: nth_update_gen)

lemma spaced_list_commit [simp]:
  "spaced_list (es[i := (es ! i)\<lparr>assignments := xs\<rparr>]) ys = spaced_list es ys"
  by (simp add: spaced_list_def)

lemma eligible_commit [simp]:
  "eligible (es[i := (es ! i)\<lparr>assignments := xs\<rparr>]) e p = eligible es e p"
  by (simp add: eligible_def)

lemma spaced_list_snoc:
  assumes "spaced_list es xs"
    and "list_all (\<lambda>e. days_between (date (es ! i)) (date (es ! e)) \<ge> 30) xs"
  shows "spaced_list es (xs @ [i])"
  unfolding spaced_list_def
proof (intro allI impI)
  fix a b
  assume a: "a < length (xs @ [i])" and b: "b < length (xs @ [i])" and ab: "a \<noteq> b"
  have far: "\<And>k. k < length xs \<Longrightarrow> days_between (date (es ! i)) (date (es ! (xs ! k))) \<ge> 30"
    using assms(2) by (simp add: list_all_length)
  consider "a < length xs" "b < length xs" | "a < length xs" "b = length xs"
    | "a = length xs" "b < length xs"
    using a b ab by (auto simp: less_Suc_eq)
  then show "30 \<le> days_between (date (es ! ((xs @ [i]) ! a))) (date (es ! ((xs @ [i]) ! b)))"
  proof cases
    case 1
    then show ?thesis using assms(1) ab by (simp add: spaced_list_def nth_append)
  next
    case 2
    then show ?thesis using far[of a] by (simp add: nth_append days_between_sym)
  next
    case 3
    then show ?thesis using far[of b] by (simp add: nth_append)
  qed
qed

lemma commit_spaced:
  assumes "spaced (ps, es)" "eligible es (es ! i) (ps ! c)"
  shows "spaced (ps[c := (ps ! c)\<lparr>Participant.assignments := Participant.assignments (ps ! c) @ [i]\<rparr>],
                 es[i := (es ! i)\<lparr>assignments := assignments (es ! i) @ [c]\<rparr>])"
  using assms unfolding spaced_def
  by (auto simp: nth_update_gen eligible_def intro: spaced_list_snoc)

lemma eligible_not_assigned:
  assumes "eligible es (es ! i) p"
  shows "i \<notin> set (Participant.assignments p)"
proof
  assume "i \<in> set (Participant.assignments p)"
  then have "days_between (date (es ! i)) (date (es ! i)) \<ge> 30"
    using assms by (simp add: eligible_def list_all_iff)
  then show False by (simp add: days_between_self)
qed

lemma commit_no_dups:
  assumes "no_dups (ps, es)" "symmetric (ps, es)" "c < length ps" "i < length es"
    and "eligible es (es ! i) (ps ! c)"
  shows "no_dups (ps[c := (ps ! c)\<lparr>Participant.assignments := Participant.assignments (ps ! c) @ [i]\<rparr>],
                  es[i := (es ! i)\<lparr>assignments := assignments (es ! i) @ [c]\<rparr>])"
proof -
  have "c \<notin> set (assignments (es ! i))"
    using assms(2-4) eligible_not_assigned[OF assms(5)] by (simp add: symmetric_def)
  then show ?thesis using assms(1) unfolding no_dups_def by (auto simp: nth_update_gen)
qed

lemma chosen_candidate:
  assumes "candidates_of ps es e \<noteq> []"
  shows "hd (sort_key f (candidates_of ps es e)) < length ps"
    and "eligible es e (ps ! hd (sort_key f (candidates_of ps es e)))"
  using hd_sort_key_in[OF assms, of f] by (simp_all add: candidates_iff)

lemma slot_step_inv:
  assumes "slot_step i (cc, gc, ps, es) = Some (cc', gc', ps', es')" "i < length es" "inv (ps, es)"
  shows "inv (ps', es')"
proof -
  let ?c = "hd (sort_key (\<lambda>p. candidate_key (ps ! p) (es ! i) cc gc)
                      (candidates_of ps es (es ! i)))"
  note d = slot_step_SomeD[OF assms(1)]
  have c: "?c < length ps" and e: "eligible es (es ! i) (ps ! ?c)"
    using chosen_candidate[OF d(1)] by blast+
  have l: "length (Participant.assignments (ps ! ?c)) < 2" using e by (simp add: eligible_def)
  show ?thesis
    unfolding inv_def d(2) d(3)
    using assms(2,3) c e l
    by (simp add: inv_def commit_refs_ok commit_symmetric commit_capped commit_spaced commit_no_dups)
qed

subsection \<open>What a pass leaves unchanged\<close>

lemma slot_step_frame:
  assumes "slot_step i (cc, gc, ps, es) = Some (cc', gc', ps', es')"
  shows "length ps' = length ps" and "length es' = length es"
    and "date (es' ! e) = date (es ! e)" and "capacity (es' ! e) = capacity (es ! e)"
    and "e \<noteq> i \<Longrightarrow> es' ! e = es ! e"
  unfolding slot_step_SomeD(2)[OF assms] slot_step_SomeD(3)[OF assms] by simp_all

lemma eligible_date_cong: "date e' = date e \<Longrightarrow> eligible es e' p = eligible es e p"
  by (simp add: eligible_def)

lemma candidates_after_commit:
  assumes "c \<in> set (candidates_of ps es (es ! i))" "i < length es"
  shows "candidates_of
           (ps[c := (ps ! c)\<lparr>Participant.assignments := Participant.assignments (ps ! c) @ [i]\<rparr>])
           (es[i := (es ! i)\<lparr>assignments := assignments (es ! i) @ [c]\<rparr>])
           (es[i := (es ! i)\<lparr>assignments := assignments (es ! i) @ [c]\<rparr>] ! i)
         = filter (\<lambda>k. c \<noteq> k) (candidates_of ps es (es ! i))"
proof -
  let ?ps' = "ps[c := (ps ! c)\<lparr>Participant.assignments := Participant.assignments (ps ! c) @ [i]\<rparr>]"
  let ?es' = "es[i := (es ! i)\<lparr>assignments := assignments (es ! i) @ [c]\<rparr>]"
  have c: "c < length ps" using assms(1) by (simp add: candidates_iff)
  have d: "eligible es (?es' ! i) = eligible es (es ! i)"
    by (rule ext, rule eligible_date_cong) simp
  have "\<not> eligible es (es ! i) (?ps' ! c)"
    using c by (simp add: eligible_def days_between_self)
  moreover have "\<And>k. k \<noteq> c \<Longrightarrow> ?ps' ! k = ps ! k" by simp
  ultimately have "\<And>k. eligible es (es ! i) (?ps' ! k) \<longleftrightarrow> c \<noteq> k \<and> eligible es (es ! i) (ps ! k)"
    by (metis (no_types))
  then show ?thesis
    unfolding candidates_of_def by (simp add: d conj_commute)
qed

lemma length_filter_neq:
  assumes "distinct xs" "c \<in> set xs"
  shows "Suc (length (filter (\<lambda>k. c \<noteq> k) xs)) = length xs"
proof -
  have "filter (\<lambda>k. c \<noteq> k) xs = remove1 c xs"
    using assms(1) by (simp add: distinct_remove1_removeAll removeAll_filter_not_eq)
  moreover have "0 < length xs" using assms(2) by (rule length_pos_if_in_set)
  ultimately show ?thesis using assms(2) by (simp add: length_remove1)
qed

lemma slot_step_count:
  assumes "slot_step i (cc, gc, ps, es) = Some (cc', gc', ps', es')" "i < length es"
  shows "Suc (length (candidates_of ps' es' (es' ! i))) = length (candidates_of ps es (es ! i))"
    and "length (assignments (es' ! i)) = Suc (length (assignments (es ! i)))"
proof -
  note d = slot_step_SomeD[OF assms(1)]
  let ?c = "hd (sort_key (\<lambda>p. candidate_key (ps ! p) (es ! i) cc gc)
                      (candidates_of ps es (es ! i)))"
  have m: "?c \<in> set (candidates_of ps es (es ! i))" using d(1) by (rule hd_sort_key_in)
  show "Suc (length (candidates_of ps' es' (es' ! i))) = length (candidates_of ps es (es ! i))"
    unfolding d(2) d(3) candidates_after_commit[OF m assms(2)]
    using m by (simp add: length_filter_neq distinct_candidates)
  show "length (assignments (es' ! i)) = Suc (length (assignments (es ! i)))"
    unfolding d(3) using assms(2) by simp
qed

subsection \<open>The slot loop\<close>

lemma fill_slots_rule:
  assumes "fill_slots n i st = st'" and "P st"
    and "\<And>s s'. P s \<Longrightarrow> slot_step i s = Some s' \<Longrightarrow> P s'"
  shows "P st'"
  using assms(1,2)
proof (induction n arbitrary: st)
  case 0
  then show ?case by simp
next
  case (Suc n)
  show ?case
  proof (cases "slot_step i st")
    case None
    then show ?thesis using Suc.prems by simp
  next
    case (Some s1)
    then have "fill_slots n i s1 = st'" using Suc.prems(1) by simp
    moreover have "P s1" using assms(3)[OF Suc.prems(2) Some] .
    ultimately show ?thesis by (rule Suc.IH)
  qed
qed

lemma slot_iter_rule:
  assumes "slot_iter j i st = Some st'" and "P st"
    and "\<And>s s'. P s \<Longrightarrow> slot_step i s = Some s' \<Longrightarrow> P s'"
  shows "P st'"
  using assms(1,2)
proof (induction j arbitrary: st)
  case 0
  then show ?case by simp
next
  case (Suc j)
  then obtain s1 where s1: "slot_step i st = Some s1" and r: "slot_iter j i s1 = Some st'"
    by (auto split: option.splits)
  have "P s1" using assms(3)[OF Suc.prems(2) s1] .
  with r show ?case by (rule Suc.IH)
qed

lemma kept_refl: "kept i s s"
  by (simp add: kept_def)

lemma kept_trans: "kept i s s1 \<Longrightarrow> kept i s1 s2 \<Longrightarrow> kept i s s2"
  by (simp add: kept_def)

lemma slot_step_kept:
  assumes "slot_step i (cc, gc, s) = Some (cc', gc', s')"
  shows "kept i s s'"
proof -
  obtain ps es ps' es' where s: "s = (ps, es)" "s' = (ps', es')"
    by (cases s, cases s') auto
  show ?thesis using slot_step_frame[OF assms[unfolded s]] unfolding s kept_def by simp
qed

lemma slot_step_good:
  assumes "slot_step i (cc, gc, s) = Some (cc', gc', s')" "i < length (snd s)" "inv s"
  shows "inv s'"
proof -
  obtain ps es ps' es' where s: "s = (ps, es)" "s' = (ps', es')"
    by (cases s, cases s') auto
  show ?thesis using slot_step_inv[OF assms(1)[unfolded s]] assms(2,3) unfolding s by simp
qed

lemma fill_slots_kept_inv:
  assumes "fill_slots n i (cc, gc, s) = (cc', gc', s')" "i < length (snd s)"
  shows "kept i s s'" and "inv s \<Longrightarrow> inv s'"
proof -
  let ?P = "\<lambda>st. kept i s (snd (snd st)) \<and> (inv s \<longrightarrow> inv (snd (snd st)))"
  have "?P (cc', gc', s')"
  proof (rule fill_slots_rule[OF assms(1), where P = ?P])
    show "?P (cc, gc, s)" by (simp add: kept_refl)
  next
    fix st st' assume p: "?P st" and st: "slot_step i st = Some st'"
    obtain a b t where t: "st = (a, b, t)" by (cases st) auto
    obtain a' b' t' where t': "st' = (a', b', t')" by (cases st') auto
    have k: "kept i t t'" using st unfolding t t' by (rule slot_step_kept)
    have l: "i < length (snd t)" using p assms(2) unfolding t by (simp add: kept_def)
    have "inv t \<Longrightarrow> inv t'" using slot_step_good[OF st[unfolded t t'] l] .
    then show "?P st'" using p k unfolding t t' by (auto intro: kept_trans)
  qed
  then show "kept i s s'" and "inv s \<Longrightarrow> inv s'" by simp_all
qed

lemma slot_iter_kept_inv:
  assumes "slot_iter j i (cc, gc, s) = Some (cc', gc', s')" "i < length (snd s)"
  shows "kept i s s'" and "inv s \<Longrightarrow> inv s'"
proof -
  let ?P = "\<lambda>st. kept i s (snd (snd st)) \<and> (inv s \<longrightarrow> inv (snd (snd st)))"
  have "?P (cc', gc', s')"
  proof (rule slot_iter_rule[OF assms(1), where P = ?P])
    show "?P (cc, gc, s)" by (simp add: kept_refl)
  next
    fix st st' assume p: "?P st" and st: "slot_step i st = Some st'"
    obtain a b t where t: "st = (a, b, t)" by (cases st) auto
    obtain a' b' t' where t': "st' = (a', b', t')" by (cases st') auto
    have k: "kept i t t'" using st unfolding t t' by (rule slot_step_kept)
    have l: "i < length (snd t)" using p assms(2) unfolding t by (simp add: kept_def)
    have "inv t \<Longrightarrow> inv t'" using slot_step_good[OF st[unfolded t t'] l] .
    then show "?P st'" using p k unfolding t t' by (auto intro: kept_trans)
  qed
  then show "kept i s s'" and "inv s \<Longrightarrow> inv s'" by simp_all
qed

lemma fill_slots_count:
  assumes "fill_slots n i (cc, gc, ps, es) = (cc', gc', ps', es')" "i < length es"
  shows "length (assignments (es' ! i))
         = length (assignments (es ! i)) + min n (length (candidates_of ps es (es ! i)))"
  using assms
proof (induction n arbitrary: cc gc ps es)
  case 0
  then show ?case by simp
next
  case (Suc n)
  show ?case
  proof (cases "slot_step i (cc, gc, ps, es)")
    case None
    then have "candidates_of ps es (es ! i) = []" by (simp add: slot_step_None)
    then show ?thesis using Suc.prems None by simp
  next
    case (Some st1)
    obtain cc1 gc1 ps1 es1 where st1: "st1 = (cc1, gc1, ps1, es1)" by (cases st1) auto
    have step: "slot_step i (cc, gc, ps, es) = Some (cc1, gc1, ps1, es1)" using Some st1 by simp
    have rest: "fill_slots n i (cc1, gc1, ps1, es1) = (cc', gc', ps', es')"
      using Suc.prems(1) step by simp
    have l: "i < length es1" using slot_step_frame(2)[OF step] Suc.prems(2) by simp
    have "length (assignments (es' ! i))
          = length (assignments (es1 ! i)) + min n (length (candidates_of ps1 es1 (es1 ! i)))"
      using rest l by (rule Suc.IH)
    then show ?thesis
      using slot_step_count[OF step Suc.prems(2)] by simp
  qed
qed

subsection \<open>The event loop\<close>

lemma fill_event_kept_inv:
  assumes "i < length (snd s)"
  shows "kept i s (fill_event i s)" and "inv s \<Longrightarrow> inv (fill_event i s)"
proof -
  obtain cc' gc' s' where r:
    "fill_slots (nat (capacity (snd s ! i))) i (Map.empty, Map.empty, s) = (cc', gc', s')"
    by (metis prod_cases3)
  then have e: "fill_event i s = s'" by (simp add: fill_event_def)
  show "kept i s (fill_event i s)" unfolding e using r assms by (rule fill_slots_kept_inv)
  show "inv s \<Longrightarrow> inv (fill_event i s)" unfolding e using r assms by (rule fill_slots_kept_inv)
qed

lemma fill_event_count:
  assumes "i < length (snd s)"
  shows "length (assignments (snd (fill_event i s) ! i))
         = length (assignments (snd s ! i))
           + min (nat (capacity (snd s ! i))) (length (candidates_of (fst s) (snd s) (snd s ! i)))"
proof -
  obtain ps es where s: "s = (ps, es)" by (cases s) auto
  obtain cc' gc' ps' es' where r:
    "fill_slots (nat (capacity (es ! i))) i (Map.empty, Map.empty, ps, es) = (cc', gc', ps', es')"
    by (metis prod_cases4)
  then have e: "fill_event i s = (ps', es')" by (simp add: fill_event_def s)
  show ?thesis unfolding e using fill_slots_count[OF r] assms by (simp add: s)
qed

lemma assign_loop_append: "assign_loop (xs @ ys) s = assign_loop ys (assign_loop xs s)"
  by (induction xs arbitrary: s) simp_all

lemma assign_loop_kept_inv:
  assumes "\<forall>i\<in>set js. i < length (snd s)"
  shows "length (fst (assign_loop js s)) = length (fst s)"
    and "length (snd (assign_loop js s)) = length (snd s)"
    and "date (snd (assign_loop js s) ! e) = date (snd s ! e)"
    and "capacity (snd (assign_loop js s) ! e) = capacity (snd s ! e)"
    and "e \<notin> set js \<Longrightarrow> snd (assign_loop js s) ! e = snd s ! e"
    and "inv s \<Longrightarrow> inv (assign_loop js s)"
  using assms
proof (induction js arbitrary: s)
  case Nil
  {
    case 1 show ?case by simp
  next
    case 2 show ?case by simp
  next
    case 3 show ?case by simp
  next
    case 4 show ?case by simp
  next
    case 5 show ?case by simp
  next
    case 6 then show ?case by simp
  }
next
  case (Cons j js)
  {
    case 1
    have l: "j < length (snd s)" using 1 by simp
    note k = fill_event_kept_inv(1)[OF l, unfolded kept_def]
    have "\<forall>i\<in>set js. i < length (snd (fill_event j s))" using 1 k by simp
    from Cons.IH(1)[OF this] show ?case using k by simp
  next
    case 2
    have l: "j < length (snd s)" using 2 by simp
    note k = fill_event_kept_inv(1)[OF l, unfolded kept_def]
    have "\<forall>i\<in>set js. i < length (snd (fill_event j s))" using 2 k by simp
    from Cons.IH(2)[OF this] show ?case using k by simp
  next
    case 3
    have l: "j < length (snd s)" using 3 by simp
    note k = fill_event_kept_inv(1)[OF l, unfolded kept_def]
    have "\<forall>i\<in>set js. i < length (snd (fill_event j s))" using 3 k by simp
    from Cons.IH(3)[OF this] show ?case using k by simp
  next
    case 4
    have l: "j < length (snd s)" using 4 by simp
    note k = fill_event_kept_inv(1)[OF l, unfolded kept_def]
    have "\<forall>i\<in>set js. i < length (snd (fill_event j s))" using 4 k by simp
    from Cons.IH(4)[OF this] show ?case using k by simp
  next
    case 5
    have l: "j < length (snd s)" using 5 by simp
    note k = fill_event_kept_inv(1)[OF l, unfolded kept_def]
    have "\<forall>i\<in>set js. i < length (snd (fill_event j s))" using 5 k by simp
    from Cons.IH(5)[OF _ this] 5(1) show ?case using k by simp
  next
    case 6
    have l: "j < length (snd s)" using 6 by simp
    note k = fill_event_kept_inv(1)[OF l, unfolded kept_def]
    have "\<forall>i\<in>set js. i < length (snd (fill_event j s))" using 6 k by simp
    from Cons.IH(6)[OF _ this] fill_event_kept_inv(2)[OF l 6(1)] show ?case by simp
  }
qed

subsection \<open>The whole run\<close>

lemma fresh_inv: "fresh ps es \<Longrightarrow> inv (ps, es)"
  by (simp add: fresh_def inv_def refs_ok_def symmetric_def capped_def spaced_def
      spaced_list_def no_dups_def list_all_length)

lemma upt_split: "i < n \<Longrightarrow> [0..<n] = [0..<i] @ i # [Suc i..<n]"
proof -
  assume a: "i < n"
  have "[0..<n] = [0..<i] @ [i..<n]" using upt_add_eq_append[of 0 i "n - i"] a by simp
  then show ?thesis using a by (simp add: upt_conv_Cons)
qed

lemma assign_events_split:
  assumes "i < length es"
  shows "assign_events ps es
         = assign_loop [Suc i..<length es] (fill_event i (event_start ps es i))"
  by (simp add: assign_events_def event_start_def upt_split[OF assms] assign_loop_append)

lemma event_start_facts:
  assumes "i \<le> length es"
  shows "length (fst (event_start ps es i)) = length ps"
    and "length (snd (event_start ps es i)) = length es"
    and "date (snd (event_start ps es i) ! e) = date (es ! e)"
    and "capacity (snd (event_start ps es i) ! e) = capacity (es ! e)"
    and "i \<le> e \<Longrightarrow> snd (event_start ps es i) ! e = es ! e"
    and "inv (ps, es) \<Longrightarrow> inv (event_start ps es i)"
proof -
  have b: "\<forall>j\<in>set [0..<i]. j < length (snd (ps, es))" using assms by simp
  show "length (fst (event_start ps es i)) = length ps"
    using assign_loop_kept_inv(1)[OF b] by (simp add: event_start_def)
  show "length (snd (event_start ps es i)) = length es"
    using assign_loop_kept_inv(2)[OF b] by (simp add: event_start_def)
  show "date (snd (event_start ps es i) ! e) = date (es ! e)"
    using assign_loop_kept_inv(3)[OF b] by (simp add: event_start_def)
  show "capacity (snd (event_start ps es i) ! e) = capacity (es ! e)"
    using assign_loop_kept_inv(4)[OF b] by (simp add: event_start_def)
  show "i \<le> e \<Longrightarrow> snd (event_start ps es i) ! e = es ! e"
    using assign_loop_kept_inv(5)[OF b, of e] by (simp add: event_start_def)
  show "inv (ps, es) \<Longrightarrow> inv (event_start ps es i)"
    using assign_loop_kept_inv(6)[OF b] by (simp add: event_start_def)
qed

lemma assign_events_facts:
  shows "length (fst (assign_events ps es)) = length ps"
    and "length (snd (assign_events ps es)) = length es"
    and "date (snd (assign_events ps es) ! e) = date (es ! e)"
    and "capacity (snd (assign_events ps es) ! e) = capacity (es ! e)"
    and "inv (ps, es) \<Longrightarrow> inv (assign_events ps es)"
  using event_start_facts[where i = "length es" and es = es and ps = ps]
  by (simp_all add: event_start_def assign_events_def)

lemma final_event:
  assumes "i < length es"
  shows "snd (assign_events ps es) ! i = snd (fill_event i (event_start ps es i)) ! i"
proof -
  have l: "length (snd (fill_event i (event_start ps es i))) = length es"
    using fill_event_kept_inv(1)[of i "event_start ps es i"]
      event_start_facts(2)[where i = i and es = es and ps = ps] assms
    by (simp add: kept_def)
  have b: "\<forall>j\<in>set [Suc i..<length es]. j < length (snd (fill_event i (event_start ps es i)))"
    using l by simp
  show ?thesis
    unfolding assign_events_split[OF assms]
    using assign_loop_kept_inv(5)[OF b, of i] by simp
qed

lemma final_event_count:
  assumes "i < length es"
  shows "length (assignments (snd (assign_events ps es) ! i))
         = length (assignments (es ! i))
           + min (nat (capacity (es ! i)))
               (length (candidates_of (fst (event_start ps es i)) (snd (event_start ps es i))
                          (snd (event_start ps es i) ! i)))"
proof -
  have l: "i < length (snd (event_start ps es i))"
    using event_start_facts(2)[where i = i and es = es and ps = ps] assms by simp
  show ?thesis
    unfolding final_event[OF assms] fill_event_count[OF l]
    using event_start_facts(4,5)[where i = i and es = es and ps = ps and e = i] assms by simp
qed

subsection \<open>Intermediate states\<close>

lemma state_at_inv:
  assumes "state_at ps es i j = Some (cc, gc, s)" "inv (ps, es)"
  shows "inv s" and "length (fst s) = length ps" and "length (snd s) = length es"
proof -
  have i: "i < length es" and it: "slot_iter j i (Map.empty, Map.empty, event_start ps es i) = Some (cc, gc, s)"
    using assms(1) by (simp_all add: state_at_def split: if_splits)
  have l: "i < length (snd (event_start ps es i))"
    using event_start_facts(2)[where i = i and es = es and ps = ps] i by simp
  have v: "inv (event_start ps es i)" using event_start_facts(6)[where i = i and es = es and ps = ps] i assms(2) by simp
  show "inv s" using slot_iter_kept_inv(2)[OF it l v] .
  show "length (fst s) = length ps" "length (snd s) = length es"
    using slot_iter_kept_inv(1)[OF it l] event_start_facts(1,2)[where i = i and es = es and ps = ps] i
    by (simp_all add: kept_def)
qed

text \<open>The states of \<open>slot_iter\<close> are the states the slot loop goes through.\<close>

lemma fill_slots_slot_iter:
  assumes "slot_iter j i st = Some st1" "j \<le> n"
  shows "fill_slots n i st = fill_slots (n - j) i st1"
  using assms
proof (induction j arbitrary: st n)
  case 0
  then show ?case by simp
next
  case (Suc j)
  then obtain s1 where s1: "slot_step i st = Some s1" and r: "slot_iter j i s1 = Some st1"
    by (auto split: option.splits)
  obtain m where m: "n = Suc m" using Suc.prems(2) by (cases n) auto
  have "fill_slots m i s1 = fill_slots (m - j) i st1" using r Suc.prems(2) m by (intro Suc.IH) auto
  then show ?case using s1 m by simp
qed

lemma state_at_on_run:
  assumes "state_at ps es i j = Some st"
  shows "fill_event i (event_start ps es i)
         = snd (snd (fill_slots (nat (capacity (es ! i)) - j) i st))"
proof -
  have i: "i < length es" and j: "j \<le> nat (capacity (es ! i))"
    and it: "slot_iter j i (Map.empty, Map.empty, event_start ps es i) = Some st"
    using assms by (simp_all add: state_at_def split: if_splits)
  have c: "capacity (snd (event_start ps es i) ! i) = capacity (es ! i)"
    using event_start_facts(4)[where i = i and es = es and ps = ps and e = i] i by simp
  show ?thesis unfolding fill_event_def c using fill_slots_slot_iter[OF it j] by simp
qed

subsection \<open>The ranking key\<close>

lemma weekday_less: "weekday d < 7"
  by (simp add: weekday_def)

lemma lower_day_names:
  "map ascii_lower [''Monday'', ''Tuesday'', ''Wednesday'', ''Thursday'', ''Friday'', ''Saturday'',
              ''Sunday'']
   = [''monday'', ''tuesday'', ''wednesday'', ''thursday'', ''friday'', ''saturday'', ''sunday'']"
  by (simp add: ascii_lower_def ascii_lower_char_def)

lemma lower_strftime_A: "ascii_lower (strftime_A d) = spec_weekday_name d"
proof -
  let ?names = "[''Monday'', ''Tuesday'', ''Wednesday'', ''Thursday'', ''Friday'', ''Saturday'',
                 ''Sunday'']"
  have "ascii_lower (?names ! weekday d) = map ascii_lower ?names ! weekday d"
    using weekday_less[of d] by (intro nth_map[symmetric]) simp
  then show ?thesis
    unfolding strftime_A_def spec_weekday_name_def lower_day_names .
qed

lemma school_score_spec:
  "(if preferred_school p \<noteq> None \<and> school_event e \<noteq> None \<and> preferred_school p \<noteq> school_event e
    then 1 else 0) = spec_school_mismatch (preferred_school p) (school_event e)"
  by (cases "preferred_school p"; cases "school_event e") (auto simp: spec_school_mismatch_def)

lemma country_score_spec:
  "counts_wf cc \<Longrightarrow> get0 cc c = spec_country_score cc c"
  by (cases c) (simp_all add: counts_wf_def get0_def spec_country_score_def truthy_def)

lemma gender_score_spec: "gender_diff gc g = spec_gender_score gc g"
  by (cases g) (auto simp: gender_diff_def spec_gender_score_def incr_def get0_def truthy_def)

lemma candidate_key_spec:
  assumes "counts_wf cc"
  shows "candidate_key p e cc gc = spec_key p e cc gc"
  unfolding candidate_key_def spec_key_def Let_def school_score_spec lower_strftime_A
    country_score_spec[OF assms] gender_score_spec
  by (simp add: spec_day_mismatch_def spec_distance_score_def split: option.splits)

lemma counts_wf_empty: "counts_wf Map.empty"
  by (simp add: counts_wf_def)

lemma counts_wf_incr: "counts_wf m \<Longrightarrow> truthy k \<Longrightarrow> counts_wf (incr m k)"
  by (auto simp: counts_wf_def incr_def)

lemma slot_step_counts_wf:
  assumes "slot_step i st = Some st'" "counts_wf (fst st)"
  shows "counts_wf (fst st')"
proof -
  obtain cc gc ps es where st: "st = (cc, gc, ps, es)" by (cases st) auto
  obtain cc' gc' ps' es' where st': "st' = (cc', gc', ps', es')" by (cases st') auto
  show ?thesis
    using slot_step_SomeD(4)[OF assms(1)[unfolded st st']] assms(2)
    unfolding st st' by (simp add: counts_wf_incr)
qed

lemma state_at_counts_wf:
  assumes "state_at ps es i j = Some (cc, gc, s)"
  shows "counts_wf cc"
proof -
  have it: "slot_iter j i (Map.empty, Map.empty, event_start ps es i) = Some (cc, gc, s)"
    using assms by (simp add: state_at_def split: if_splits)
  have "counts_wf (fst (cc, gc, s))"
    by (rule slot_iter_rule[OF it, where P = "\<lambda>st. counts_wf (fst st)"])
       (simp_all add: counts_wf_empty slot_step_counts_wf)
  then show ?thesis by simp
qed

subsection \<open>The choice\<close>

lemma key_less_iff: "key_less x y \<longleftrightarrow> x < y"
  by (cases x; cases y) (auto simp: less_prod_def)

lemma chosen_least:
  fixes K :: "nat \<Rightarrow> key"
  assumes "candidates_of ps es e \<noteq> []"
  defines "c \<equiv> hd (sort_key K (candidates_of ps es e))"
  shows "c < length ps" and "eligible es e (ps ! c)"
    and "p < length ps \<Longrightarrow> eligible es e (ps ! p) \<Longrightarrow> \<not> key_less (K p) (K c)"
    and "p < length ps \<Longrightarrow> eligible es e (ps ! p) \<Longrightarrow> K p = K c \<Longrightarrow> c \<le> p"
proof -
  show "c < length ps" "eligible es e (ps ! c)"
    unfolding c_def using chosen_candidate[OF assms(1)] by blast+
  show "\<not> key_less (K p) (K c)" if "p < length ps" "eligible es e (ps ! p)"
  proof -
    have "p \<in> set (candidates_of ps es e)" using that by (simp add: candidates_iff)
    then have "K c \<le> K p" unfolding c_def by (rule hd_sort_key_min)
    then show ?thesis by (simp add: key_less_iff not_less)
  qed
  show "c \<le> p" if "p < length ps" "eligible es e (ps ! p)" "K p = K c"
  proof -
    have m: "p \<in> set (candidates_of ps es e)" using that by (simp add: candidates_iff)
    have "c = hd (filter (\<lambda>y. K y = K c) (candidates_of ps es e))"
      unfolding c_def using assms(1) by (rule hd_sort_key_stable)
    moreover have "hd (filter (\<lambda>y. K y = K c) (candidates_of ps es e)) \<le> p"
      using sorted_candidates m that(3) by (rule hd_filter_sorted_le)
    ultimately show ?thesis by simp
  qed
qed

subsection \<open>The sample run, pass by pass\<close>

lemmas demo_defs = demo_store_def with_assignments_def with_participants_def
  demo_participants_def demo_events_def

lemmas run_simps = slot_step_def candidates_of_def eligible_def
  candidate_key_def lower_strftime_A spec_weekday_name_def weekday_def days_before_year_def
  days_before_month_def is_leap_def gender_diff_def truthy_def get0_def incr_def
  days_between_def Let_def

lemma demo_step_a:
  "slot_step 0 (Map.empty, Map.empty, demo_participants, demo_events)
   = Some ([Some ''US'' \<mapsto> 1], [Some ''M'' \<mapsto> 1], demo_store [[], [0]] [[1], []])"
  by (simp add: run_simps demo_defs)

lemma demo_step_b:
  "slot_step 1 (Map.empty, Map.empty, demo_store [[], [0]] [[1], []])
   = Some ([Some ''US'' \<mapsto> 1], [Some ''M'' \<mapsto> 1], demo_store [[], [0, 1]] [[1], [1]])"
  by (simp add: run_simps demo_defs)

lemma demo_step_c:
  "slot_step 1 ([Some ''US'' \<mapsto> 1], [Some ''M'' \<mapsto> 1], demo_store [[], [0, 1]] [[1], [1]])
   = Some ([Some ''US'' \<mapsto> 2], [Some ''M'' \<mapsto> 1, Some ''F'' \<mapsto> 1],
           demo_store [[1], [0, 1]] [[1], [1, 0]])"
  by (simp add: run_simps demo_defs)

lemma demo_step_d:
  "slot_step 1 ([Some ''US'' \<mapsto> 2], [Some ''M'' \<mapsto> 1, Some ''F'' \<mapsto> 1],
                demo_store [[1], [0, 1]] [[1], [1, 0]]) = None"
  by (simp add: run_simps demo_defs)

lemma demo_fill_event_0:
  "fill_event 0 (demo_participants, demo_events) = demo_store [[], [0]] [[1], []]"
proof -
  have "nat (capacity (demo_events ! 0)) = Suc 0" by (simp add: demo_events_def)
  then show ?thesis by (simp add: fill_event_def demo_step_a[simplified])
qed

lemma demo_fill_event_1:
  "fill_event 1 (demo_store [[], [0]] [[1], []]) = demo_store [[1], [0, 1]] [[1], [1, 0]]"
proof -
  have "nat (capacity (snd (demo_store [[], [0]] [[1], []]) ! 1)) = Suc (Suc (Suc 0))"
    by (simp add: demo_defs)
  then show ?thesis
    by (simp add: fill_event_def demo_step_b[simplified] demo_step_c[simplified]
        demo_step_d[simplified])
qed

lemma demo_event_start_1:
  "event_start demo_participants demo_events 1 = demo_store [[], [0]] [[1], []]"
proof -
  have "[0..<1] = [0]" by simp
  then show ?thesis by (simp add: event_start_def demo_fill_event_0[simplified])
qed

lemma demo_run:
  "assign_events demo_participants demo_events = demo_store [[1], [0, 1]] [[1], [1, 0]]"
proof -
  have "[0..<length demo_events] = [0, 1]" by (simp add: demo_events_def upt_rec)
  then show ?thesis
    by (simp add: assign_events_def demo_fill_event_0[simplified] demo_fill_event_1[simplified])
qed

lemma demo_state_at:
  "state_at demo_participants demo_events 1 1
   = Some ([Some ''US'' \<mapsto> 1], [Some ''M'' \<mapsto> 1], demo_store [[], [0, 1]] [[1], [1]])"
proof -
  have "1 < length demo_events" "1 \<le> nat (capacity (demo_events ! 1))"
    by (simp_all add: demo_events_def)
  then show ?thesis
    by (simp add: state_at_def demo_event_start_1[simplified] demo_step_b[simplified])
qed

lemma demo_fresh: "fresh demo_participants demo_events"
  by (simp add: fresh_def demo_participants_def demo_events_def)

subsection \<open>Further facts used below\<close>

lemma demo_days: "days_between (Date 2024 1 15) (Date 2024 2 19) = 35"
  by (simp add: days_between_def days_before_year_def days_before_month_def is_leap_def)

lemma slot_step_candidates_shrink:
  assumes "slot_step i (cc, gc, ps, es) = Some (cc', gc', ps', es')" "i < length es"
  shows "set (candidates_of ps' es' (es' ! i)) \<subseteq> set (candidates_of ps es (es ! i))"
proof -
  note d = slot_step_SomeD[OF assms(1)]
  let ?c = "hd (sort_key (\<lambda>p. candidate_key (ps ! p) (es ! i) cc gc)
                      (candidates_of ps es (es ! i)))"
  have m: "?c \<in> set (candidates_of ps es (es ! i))" using d(1) by (rule hd_sort_key_in)
  show ?thesis unfolding d(2) d(3) candidates_after_commit[OF m assms(2)] by auto
qed

lemma slot_iter_candidates_shrink:
  assumes "slot_iter j i (cc, gc, ps, es) = Some (cc', gc', ps', es')" "i < length es"
  shows "set (candidates_of ps' es' (es' ! i)) \<subseteq> set (candidates_of ps es (es ! i))"
proof -
  let ?P = "\<lambda>st. case st of (a, b, qs, fs) \<Rightarrow>
              length fs = length es
              \<and> set (candidates_of qs fs (fs ! i)) \<subseteq> set (candidates_of ps es (es ! i))"
  have "?P (cc', gc', ps', es')"
  proof (rule slot_iter_rule[OF assms(1), where P = ?P])
    show "?P (cc, gc, ps, es)" by simp
  next
    fix st st' assume p: "?P st" and st: "slot_step i st = Some st'"
    obtain a b qs fs where t: "st = (a, b, qs, fs)" by (cases st) auto
    obtain a' b' qs' fs' where t': "st' = (a', b', qs', fs')" by (cases st') auto
    have l: "i < length fs" using p assms(2) unfolding t by simp
    have "set (candidates_of qs' fs' (fs' ! i)) \<subseteq> set (candidates_of qs fs (fs ! i))"
      using st l unfolding t t' by (rule slot_step_candidates_shrink)
    moreover have "length fs' = length fs" using slot_step_frame(2)[OF st[unfolded t t']] .
    ultimately show "?P st'" using p unfolding t t' by auto
  qed
  then show ?thesis by simp
qed

lemma fill_slots_break:
  "slot_step i st = None \<Longrightarrow> fill_slots n i st = st"
  by (cases n) simp_all

lemma foldl_append_filter:
  "foldl (\<lambda>result p. if P p then result @ [p] else result) acc xs = acc @ filter P xs"
  by (induction xs arbitrary: acc) simp_all

lemma filter_participants_filter:
  "filter_participants lower upper ps g c d s m
   = filter (retained lower upper g c (if truthy d then Some (lower (the d)) else None) s m) ps"
  by (simp add: filter_participants_def foldl_append_filter)

lemma retained_empty_days:
  "preferred_days p = {} \<Longrightarrow>
     retained lower upper g c d s m p = retained lower upper g c None s m p"
  by (simp add: retained_def truthy_def)

lemma get0_incr: "get0 (incr m k) k' = (if k' = k then get0 m k + 1 else get0 m k')"
  by (simp add: get0_def incr_def)

lemma tally_snoc:
  "tally field ps (xs @ [c]) k = tally field ps xs k + (if field (ps ! c) = k then 1 else 0)"
  by (simp add: tally_def)

lemma attribute_commit [simp]:
  "country (ps[c := (ps ! c)\<lparr>Participant.assignments := xs\<rparr>] ! p) = country (ps ! p)"
  "gender (ps[c := (ps ! c)\<lparr>Participant.assignments := xs\<rparr>] ! p) = gender (ps ! p)"
  by (simp_all add: nth_update_gen)

lemma tally_update:
  "tally country (ps[c := (ps ! c)\<lparr>Participant.assignments := xs\<rparr>]) ys k = tally country ps ys k"
  "tally gender (ps[c := (ps ! c)\<lparr>Participant.assignments := xs\<rparr>]) ys k = tally gender ps ys k"
  by (simp_all add: tally_def)

lemma slot_step_tallied:
  assumes "slot_step i st = Some st'" "i < length (snd (snd (snd st)))" "tallied i st"
  shows "tallied i st'"
proof -
  obtain cc gc ps es where st: "st = (cc, gc, ps, es)" by (cases st) auto
  obtain cc' gc' ps' es' where st': "st' = (cc', gc', ps', es')" by (cases st') auto
  note d = slot_step_SomeD[OF assms(1)[unfolded st st']]
  have i: "i < length es" using assms(2) by (simp add: st)
  show ?thesis
    using assms(3) i unfolding st st' tallied_def d(2) d(3) d(4) d(5)
    by (auto simp: tally_update tally_snoc get0_incr)
qed

lemma state_at_tallied:
  assumes "state_at ps es i j = Some (cc, gc, ps', es')" and "fresh ps es" and "truthy k"
  shows "get0 cc k = tally country ps' (assignments (es' ! i)) k"
    and "get0 gc k = tally gender ps' (assignments (es' ! i)) k"
proof -
  have i: "i < length es"
    and it: "slot_iter j i (Map.empty, Map.empty, event_start ps es i) = Some (cc, gc, ps', es')"
    using assms(1) by (simp_all add: state_at_def split: if_splits)
  have l: "length (snd (event_start ps es i)) = length es"
    using event_start_facts(2)[where i = i and es = es and ps = ps] i by simp
  have e: "assignments (snd (event_start ps es i) ! i) = []"
    using event_start_facts(5)[where i = i and es = es and ps = ps and e = i] i assms(2)
    by (simp add: fresh_def list_all_length)
  let ?P = "\<lambda>st. length (snd (snd (snd st))) = length es \<and> tallied i st"
  have "?P (cc, gc, ps', es')"
  proof (rule slot_iter_rule[OF it, where P = ?P])
    show "?P (Map.empty, Map.empty, event_start ps es i)"
      using l e by (cases "event_start ps es i") (simp add: tallied_def get0_def tally_def)
  next
    fix st st' assume p: "?P st" and s: "slot_step i st = Some st'"
    obtain a b qs fs where t: "st = (a, b, qs, fs)" by (cases st) auto
    obtain a' b' qs' fs' where t': "st' = (a', b', qs', fs')" by (cases st') auto
    have "length fs' = length fs" using slot_step_frame(2)[OF s[unfolded t t']] .
    moreover have "tallied i st'" using s _ conjunct2[OF p] by (rule slot_step_tallied) (use p i in simp)
    ultimately show "?P st'" using p unfolding t t' by simp
  qed
  then show "get0 cc k = tally country ps' (assignments (es' ! i)) k"
    and "get0 gc k = tally gender ps' (assignments (es' ! i)) k"
    using assms(3) by (simp_all add: tallied_def)
qed

lemma final_event_length_le:
  assumes "i < length es" and "assignments (es ! i) = []"
  shows "length (assignments (snd (assign_events ps es) ! i)) \<le> nat (capacity (es ! i))"
  unfolding final_event_count[OF assms(1)] assms(2) by simp

subsection \<open>Stable sorts\<close>



















section \<open>The properties of the specification\<close>

text \<open>
  C1. For every slot of every event, the ranking key that \<open>candidate_key\<close> computes with the
  counters of that slot is the 5-tuple of the specification: school mismatch (1 iff both the
  participant's preference and the event's flag are set and differ), day mismatch (1 iff the
  preferred days are non-empty and the lowercased weekday name of the event is not among
  them), the distance or 0.0 when unset, the current counter value of the participant's
  country (0 when the participant has no country or the country is unseen, nothing added
  beforehand), and the absolute difference of the M and F counts after one is added for the
  candidate's gender. It holds for every participant and event, so for the eligible
  participants of the slot. By \<open>state_at_tallied\<close> the counters are the numbers of participants
  already committed to the event with that country or gender.
\<close>

theorem ranking_key_matches_spec:
  assumes "state_at ps es i j = Some (cc, gc, s)"
  shows "candidate_key p e cc gc = spec_key p e cc gc"
  using state_at_counts_wf[OF assms] by (rule candidate_key_spec)

theorem ranking_key_matches_spec_witness:
  "state_at demo_participants demo_events 1 1
     = Some ([Some ''US'' \<mapsto> 1], [Some ''M'' \<mapsto> 1], demo_store [[], [0, 1]] [[1], [1]])
   \<and> candidate_key (demo_participants ! 0) (demo_events ! 1)
         [Some ''US'' \<mapsto> 1] [Some ''M'' \<mapsto> 1] = (0, 1, 5, 1, 0)
   \<and> spec_key (demo_participants ! 0) (demo_events ! 1)
         [Some ''US'' \<mapsto> 1] [Some ''M'' \<mapsto> 1] = (0, 1, 5, 1, 0)"
proof -
  have k: "candidate_key (demo_participants ! 0) (demo_events ! 1)
             [Some ''US'' \<mapsto> 1] [Some ''M'' \<mapsto> 1] = (0, 1, 5, 1, 0)"
    by (simp add: run_simps demo_participants_def demo_events_def)
  show ?thesis
    using ranking_key_matches_spec[OF demo_state_at, of "demo_participants ! 0" "demo_events ! 1"]
      demo_state_at k by simp
qed

text \<open>
  C2. A pass of the slot loop that commits a participant commits an eligible one whose key no
  eligible participant's key is below in the lexicographic order of the five fields, and the
  earliest in the input list among the eligible participants with that key; the commit
  appends the participant to the event's list and the event to the participant's list.
\<close>

theorem chosen_minimal_stable:
  assumes "slot_step i (cc, gc, ps, es) = Some (cc', gc', ps', es')" and "i < length es"
  shows "\<exists>c<length ps. eligible es (es ! i) (ps ! c)
           \<and> (\<forall>p<length ps. eligible es (es ! i) (ps ! p) \<longrightarrow>
                 \<not> key_less (candidate_key (ps ! p) (es ! i) cc gc)
                             (candidate_key (ps ! c) (es ! i) cc gc)
                 \<and> (candidate_key (ps ! p) (es ! i) cc gc = candidate_key (ps ! c) (es ! i) cc gc
                      \<longrightarrow> c \<le> p))
           \<and> assignments (es' ! i) = assignments (es ! i) @ [c]
           \<and> Participant.assignments (ps' ! c) = Participant.assignments (ps ! c) @ [i]"
proof -
  let ?K = "\<lambda>p. candidate_key (ps ! p) (es ! i) cc gc"
  let ?c = "hd (sort_key ?K (candidates_of ps es (es ! i)))"
  note d = slot_step_SomeD[OF assms(1)]
  note l = chosen_least[OF d(1), where K = ?K]
  have "assignments (es' ! i) = assignments (es ! i) @ [?c]"
    unfolding d(3) using assms(2) by simp
  moreover have "Participant.assignments (ps' ! ?c) = Participant.assignments (ps ! ?c) @ [i]"
    unfolding d(2) using l(1) by simp
  ultimately show ?thesis using l by blast
qed

theorem chosen_minimal_stable_witness:
  "slot_step 1 (Map.empty, Map.empty, demo_store [[], [0]] [[1], []])
     = Some ([Some ''US'' \<mapsto> 1], [Some ''M'' \<mapsto> 1], demo_store [[], [0, 1]] [[1], [1]])
   \<and> candidate_key (fst (demo_store [[], [0]] [[1], []]) ! 0)
         (snd (demo_store [[], [0]] [[1], []]) ! 1) Map.empty Map.empty = (0, 1, 5, 0, 1)
   \<and> candidate_key (fst (demo_store [[], [0]] [[1], []]) ! 1)
         (snd (demo_store [[], [0]] [[1], []]) ! 1) Map.empty Map.empty = (0, 0, 5, 0, 1)
   \<and> (\<exists>c<length (fst (demo_store [[], [0]] [[1], []])).
         assignments (snd (demo_store [[], [0, 1]] [[1], [1]]) ! 1)
           = assignments (snd (demo_store [[], [0]] [[1], []]) ! 1) @ [c])"
proof -
  have l: "1 < length (with_participants demo_events [[1], []])"
    by (simp add: with_participants_def demo_events_def)
  have k: "candidate_key (fst (demo_store [[], [0]] [[1], []]) ! 0)
             (snd (demo_store [[], [0]] [[1], []]) ! 1) Map.empty Map.empty = (0, 1, 5, 0, 1)"
    "candidate_key (fst (demo_store [[], [0]] [[1], []]) ! 1)
             (snd (demo_store [[], [0]] [[1], []]) ! 1) Map.empty Map.empty = (0, 0, 5, 0, 1)"
    by (simp_all add: run_simps demo_defs)
  show ?thesis
    using chosen_minimal_stable[OF demo_step_b[unfolded demo_store_def] l] demo_step_b k
    unfolding demo_store_def fst_conv snd_conv by blast
qed

text \<open>
  C3. After a run on participants and events with empty assignment lists, any two entries at
  different positions of a participant's assignment list are events whose dates are at least
  30 days apart, \<open>days_between\<close> being the absolute difference of the dates in whole days.
\<close>

theorem spacing_invariant:
  assumes "fresh ps es" and "p < length ps"
    and "a < length (Participant.assignments (fst (assign_events ps es) ! p))"
    and "b < length (Participant.assignments (fst (assign_events ps es) ! p))"
    and "a \<noteq> b"
  shows "days_between
           (date (snd (assign_events ps es) ! (Participant.assignments (fst (assign_events ps es) ! p) ! a)))
           (date (snd (assign_events ps es) ! (Participant.assignments (fst (assign_events ps es) ! p) ! b)))
         \<ge> 30"
proof -
  have "inv (assign_events ps es)"
    using assign_events_facts(5) fresh_inv[OF assms(1)] by blast
  then have "spaced (assign_events ps es)" by (simp add: inv_def)
  then show ?thesis
    using assms(2-5) assign_events_facts(1)[of ps es]
    by (simp add: spaced_def spaced_list_def)
qed

theorem spacing_invariant_witness:
  "fresh demo_participants demo_events
   \<and> Participant.assignments (fst (assign_events demo_participants demo_events) ! 1) = [0, 1]
   \<and> days_between (date (snd (assign_events demo_participants demo_events) ! 0))
        (date (snd (assign_events demo_participants demo_events) ! 1)) = 35
   \<and> days_between (date (snd (assign_events demo_participants demo_events) ! 0))
        (date (snd (assign_events demo_participants demo_events) ! 1)) \<ge> 30"
  using spacing_invariant[OF demo_fresh, of 1 0 1] demo_fresh
  unfolding demo_run by (simp add: demo_defs demo_days)

text \<open>
  C4. After a run on participants and events with empty assignment lists every participant
  has at most two assignments, and so has every participant in every state the run goes
  through: before each slot of each event, that is after each commit.
\<close>

theorem assignment_cap:
  assumes "fresh ps es"
  shows "(\<forall>p<length ps. length (Participant.assignments (fst (assign_events ps es) ! p)) \<le> 2)
       \<and> (\<forall>i j cc gc ps' es'. state_at ps es i j = Some (cc, gc, ps', es') \<longrightarrow>
            (\<forall>p<length ps'. length (Participant.assignments (ps' ! p)) \<le> 2))"
proof (intro conjI allI impI)
  fix p assume "p < length ps"
  moreover have "capped (assign_events ps es)"
    using assign_events_facts(5) fresh_inv[OF assms] by (auto simp: inv_def)
  ultimately show "length (Participant.assignments (fst (assign_events ps es) ! p)) \<le> 2"
    using assign_events_facts(1)[of ps es] by (simp add: capped_def)
next
  fix i j cc gc ps' es' p
  assume s: "state_at ps es i j = Some (cc, gc, ps', es')" and p: "p < length ps'"
  have "capped (ps', es')" using state_at_inv(1)[OF s fresh_inv[OF assms]] by (simp add: inv_def)
  then show "length (Participant.assignments (ps' ! p)) \<le> 2" using p by (simp add: capped_def)
qed

theorem assignment_cap_witness:
  "fresh demo_participants demo_events
   \<and> length (Participant.assignments (fst (assign_events demo_participants demo_events) ! 1)) = 2
   \<and> state_at demo_participants demo_events 1 1
       = Some ([Some ''US'' \<mapsto> 1], [Some ''M'' \<mapsto> 1], demo_store [[], [0, 1]] [[1], [1]])
   \<and> length (Participant.assignments (fst (demo_store [[], [0, 1]] [[1], [1]]) ! 1)) \<le> 2"
  using assignment_cap[OF demo_fresh] demo_fresh demo_state_at
  unfolding demo_run by (simp add: demo_defs)

text \<open>
  C5. After a run on participants and events with empty assignment lists and capacities that
  are not negative, the assignment list of every event is at most as long as its capacity.
  \<open>capacity\<close> is an \<open>int\<close> in the source and a non-negative integer in the specification;
  \<open>range\<close> of a negative number is empty, which \<open>final_event_length_le\<close> covers.
\<close>

theorem capacity_bound:
  assumes "fresh ps es" and "\<forall>e\<in>set es. 0 \<le> capacity e" and "i < length es"
  shows "int (length (assignments (snd (assign_events ps es) ! i)))
         \<le> capacity (snd (assign_events ps es) ! i)"
proof -
  have e: "assignments (es ! i) = []" using assms(1,3) by (simp add: fresh_def list_all_length)
  have c: "0 \<le> capacity (es ! i)" using assms(2,3) by simp
  have "length (assignments (snd (assign_events ps es) ! i)) \<le> nat (capacity (es ! i))"
    using assms(3) e by (rule final_event_length_le)
  then show ?thesis using c assign_events_facts(4)[of ps es i] by simp
qed

theorem capacity_bound_witness:
  "fresh demo_participants demo_events
   \<and> 0 \<le> capacity (demo_events ! 0) \<and> 0 \<le> capacity (demo_events ! 1)
   \<and> length (assignments (snd (assign_events demo_participants demo_events) ! 1)) = 2
   \<and> capacity (snd (assign_events demo_participants demo_events) ! 1) = 3"
proof -
  have c: "\<forall>e\<in>set demo_events. 0 \<le> capacity e" by (simp add: demo_events_def)
  show ?thesis
    using capacity_bound[OF demo_fresh c, of 1] demo_fresh
    unfolding demo_run by (simp add: demo_defs)
qed

text \<open>
  C6. After a run on participants and events with empty assignment lists, a participant is
  in the assignment list of an event exactly when the event is in the assignment list of the
  participant.
\<close>

theorem assignment_symmetric:
  assumes "fresh ps es" and "p < length ps" and "e < length es"
  shows "p \<in> set (assignments (snd (assign_events ps es) ! e))
         \<longleftrightarrow> e \<in> set (Participant.assignments (fst (assign_events ps es) ! p))"
proof -
  have "symmetric (assign_events ps es)"
    using assign_events_facts(5) fresh_inv[OF assms(1)] by (auto simp: inv_def)
  then show ?thesis
    using assms(2,3) assign_events_facts(1,2)[of ps es] by (simp add: symmetric_def)
qed

theorem assignment_symmetric_witness:
  "fresh demo_participants demo_events
   \<and> 0 \<in> set (assignments (snd (assign_events demo_participants demo_events) ! 1))
   \<and> 1 \<in> set (Participant.assignments (fst (assign_events demo_participants demo_events) ! 0))
   \<and> 0 \<notin> set (assignments (snd (assign_events demo_participants demo_events) ! 0))
   \<and> 0 \<notin> set (Participant.assignments (fst (assign_events demo_participants demo_events) ! 0))"
  using assignment_symmetric[OF demo_fresh, of 0 1] assignment_symmetric[OF demo_fresh, of 0 0]
    demo_fresh
  unfolding demo_run by (simp add: demo_defs)

text \<open>
  C7. After a run on participants and events with empty assignment lists, no participant
  occurs twice in the assignment list of an event.
\<close>

theorem no_duplicate_slot:
  assumes "fresh ps es" and "i < length es"
  shows "distinct (assignments (snd (assign_events ps es) ! i))"
proof -
  have "no_dups (assign_events ps es)"
    using assign_events_facts(5) fresh_inv[OF assms(1)] by (auto simp: inv_def)
  then show ?thesis using assms(2) assign_events_facts(2)[of ps es] by (simp add: no_dups_def)
qed

theorem no_duplicate_slot_witness:
  "fresh demo_participants demo_events
   \<and> assignments (snd (assign_events demo_participants demo_events) ! 1) = [1, 0]
   \<and> distinct (assignments (snd (assign_events demo_participants demo_events) ! 1))"
  using no_duplicate_slot[OF demo_fresh, of 1] demo_fresh
  unfolding demo_run by (simp add: demo_defs)

text \<open>
  C8. The slot loop of an event ends exactly when no participant is eligible, and leaves the
  state as it is; the run goes on with the events after it; the model has no error result.
  No participant becomes eligible for an event during its slot loop who was not eligible
  when the loop began, and the event ends with as many participants as the smaller of its
  capacity and the number of participants eligible when its loop began: with \<open>k\<close> eligible
  and capacity \<open>c > k\<close>, exactly \<open>k\<close>.
\<close>

theorem under_fill:
  assumes "fresh ps es" and "i < length es"
  shows "(slot_step i (cc, gc, ps1, es1) = None \<longleftrightarrow> candidates_of ps1 es1 (es1 ! i) = [])
       \<and> (slot_step i (cc, gc, ps1, es1) = None \<longrightarrow>
            fill_slots n i (cc, gc, ps1, es1) = (cc, gc, ps1, es1))
       \<and> assign_events ps es
           = assign_loop [Suc i..<length es] (fill_event i (event_start ps es i))
       \<and> (\<forall>j cc' gc' ps' es'. state_at ps es i j = Some (cc', gc', ps', es') \<longrightarrow>
            set (candidates_of ps' es' (es' ! i))
            \<subseteq> set (candidates_of (fst (event_start ps es i)) (snd (event_start ps es i)) (es ! i)))
       \<and> length (assignments (snd (assign_events ps es) ! i))
           = min (nat (capacity (es ! i)))
               (length (candidates_of (fst (event_start ps es i)) (snd (event_start ps es i))
                          (es ! i)))"
proof (intro conjI allI impI)
  show "slot_step i (cc, gc, ps1, es1) = None \<longleftrightarrow> candidates_of ps1 es1 (es1 ! i) = []"
    by (rule slot_step_None)
  show "fill_slots n i (cc, gc, ps1, es1) = (cc, gc, ps1, es1)"
    if "slot_step i (cc, gc, ps1, es1) = None" using that by (rule fill_slots_break)
  show "assign_events ps es
        = assign_loop [Suc i..<length es] (fill_event i (event_start ps es i))"
    using assms(2) by (rule assign_events_split)
  have same: "snd (event_start ps es i) ! i = es ! i"
    using event_start_facts(5)[where i = i and es = es and ps = ps and e = i] assms(2) by simp
  have l: "i < length (snd (event_start ps es i))"
    using event_start_facts(2)[where i = i and es = es and ps = ps] assms(2) by simp
  show "set (candidates_of ps' es' (es' ! i))
        \<subseteq> set (candidates_of (fst (event_start ps es i)) (snd (event_start ps es i)) (es ! i))"
    if s: "state_at ps es i j = Some (cc', gc', ps', es')" for j cc' gc' ps' es'
  proof -
    have "slot_iter j i (Map.empty, Map.empty, fst (event_start ps es i), snd (event_start ps es i))
          = Some (cc', gc', ps', es')"
      using s by (simp add: state_at_def split: if_splits)
    from slot_iter_candidates_shrink[OF this l] show ?thesis by (simp add: same)
  qed
  have e: "assignments (es ! i) = []" using assms by (simp add: fresh_def list_all_length)
  show "length (assignments (snd (assign_events ps es) ! i))
        = min (nat (capacity (es ! i)))
            (length (candidates_of (fst (event_start ps es i)) (snd (event_start ps es i))
                       (es ! i)))"
    unfolding final_event_count[OF assms(2)] e same by simp
qed

theorem under_fill_witness:
  "fresh demo_participants demo_events \<and> 1 < length demo_events
   \<and> capacity (demo_events ! 1) = 3
   \<and> candidates_of (fst (event_start demo_participants demo_events 1))
        (snd (event_start demo_participants demo_events 1)) (demo_events ! 1) = [0, 1]
   \<and> length (assignments (snd (assign_events demo_participants demo_events) ! 1)) = 2"
proof -
  have l: "1 < length demo_events" by (simp add: demo_events_def)
  have c: "candidates_of (fst (event_start demo_participants demo_events 1))
             (snd (event_start demo_participants demo_events 1)) (demo_events ! 1) = [0, 1]"
    unfolding demo_event_start_1
    by (simp add: candidates_of_def eligible_def demo_defs days_between_def
        days_before_year_def days_before_month_def is_leap_def)
  have k: "capacity (demo_events ! 1) = 3" by (simp add: demo_events_def)
  have "length (assignments (snd (assign_events demo_participants demo_events) ! 1))
        = min (nat (capacity (demo_events ! 1)))
            (length (candidates_of (fst (event_start demo_participants demo_events 1))
               (snd (event_start demo_participants demo_events 1)) (demo_events ! 1)))"
    using under_fill[OF demo_fresh l] by blast
  then show ?thesis using demo_fresh l c k by simp
qed



text \<open>
  C10. In \<open>filter_participants\<close>, whatever the other criteria and whatever the two case
  mappings, the participants with an empty set of preferred days that are returned for a day
  argument are the ones returned with no day argument: the day check excludes none of them.
  The returned list is a subsequence of the input list, so the retained participants keep
  their input order.
\<close>

theorem filter_keeps_no_preference:
  "filter (\<lambda>p. preferred_days p = {}) (filter_participants lower upper ps g c (Some d) s m)
   = filter (\<lambda>p. preferred_days p = {}) (filter_participants lower upper ps g c None s m)
   \<and> subseq (filter_participants lower upper ps g c day s m) ps"
proof
  show "filter (\<lambda>p. preferred_days p = {}) (filter_participants lower upper ps g c (Some d) s m)
        = filter (\<lambda>p. preferred_days p = {}) (filter_participants lower upper ps g c None s m)"
    unfolding filter_participants_filter filter_filter
  proof (rule filter_cong[OF refl])
    fix p
    let ?d1 = "if truthy (Some d) then Some (lower (the (Some d))) else None"
    let ?d2 = "if truthy None then Some (lower (the None)) else None"
    show "(retained lower upper g c ?d1 s m p \<and> preferred_days p = {})
          = (retained lower upper g c ?d2 s m p \<and> preferred_days p = {})"
      using retained_empty_days[of p lower upper g c ?d1 s m]
        retained_empty_days[of p lower upper g c ?d2 s m]
      by blast
  qed
  show "subseq (filter_participants lower upper ps g c day s m) ps"
    unfolding filter_participants_filter by (rule subseq_filter_left)
qed

theorem filter_keeps_no_preference_witness:
  "filter_participants ascii_lower ascii_upper demo_participants None None (Some ''Monday'')
     None None = [demo_participants ! 1]
   \<and> preferred_days (demo_participants ! 1) = {}
   \<and> subseq (filter_participants ascii_lower ascii_upper demo_participants None None
               (Some ''Monday'') None None) demo_participants"
proof -
  have "filter_participants ascii_lower ascii_upper demo_participants None None
          (Some ''Monday'') None None = [demo_participants ! 1]"
    by (simp add: filter_participants_def retained_def truthy_def ascii_lower_def
        ascii_lower_char_def demo_participants_def)
  then show ?thesis
    using filter_keeps_no_preference[of ascii_lower ascii_upper demo_participants None None
        "''Monday''" None None "Some ''Monday''"]
    by (simp add: demo_participants_def)
qed

end
